theory Spec2Isabelle
  imports Main "HOL-Library.Word" "HOL-Library.Multiset"
begin

section \<open>Data model of the queue (internal/gdprrelay/gdprrelay.go)\<close>

text \<open>
  Go's \<^verbatim>\<open>int\<close> and \<^verbatim>\<open>uint64\<close> are 64-bit machine integers. Both are 64-bit words
  here; a signed reading (\<open>sint\<close>, \<open>\<le>s\<close>) is used where the source compares an
  \<^verbatim>\<open>int\<close>. \<^verbatim>\<open>time.Time\<close> values are only stored and copied, never inspected, and
  are integers (an instant). A nil slice and an empty slice are both the empty list:
  the source only takes \<^verbatim>\<open>len\<close> of them and indexes them.
\<close>

type_synonym go_int = "64 word"
type_synonym uint64 = "64 word"
type_synonym time = int

record GDPRRequest =
  Type :: go_int
  UserId :: uint64
  GuildIds :: "uint64 list"
  TicketIds :: "go_int list"
  Language :: string
  InteractionToken :: string
  InteractionGuildId :: uint64
  ApplicationId :: uint64

record QueuedRequest =
  Request :: GDPRRequest
  QueuedAt :: time
  RetryCount :: go_int
  LastAttemptAt :: time
  RequestID :: string

definition maxRetries :: go_int where
  "maxRetries = 3"

subsection \<open>The wire format\<close>

text \<open>
  The elements of the three Redis lists are byte strings. The source reads them with
  \<^verbatim>\<open>json.Unmarshal(.., &queued)\<close> into a \<^verbatim>\<open>QueuedRequest\<close> and writes them with
  \<^verbatim>\<open>json.Marshal(queued)\<close>. Both belong to Go's standard library and are taken by
  their documented contract on this struct: a byte string either does not decode
  (\<open>Malformed\<close>), or it decodes to the values of the struct's tagged fields, and
  whatever object keys it carries that no field of the struct is tagged with are
  ignored by the decoder (\<open>Encoded q extra\<close>, with \<open>extra\<close> the ignored keys and the
  text of their values). The encoder writes the tagged fields of the struct and
  nothing else. \<^verbatim>\<open>QueuedRequest\<close> has no field that collects unknown keys and no
  version field. Two byte strings that spell the same fields and the same ignored
  keys are one value here.
\<close>

datatype raw = Malformed string | Encoded QueuedRequest "(string \<times> string) list"

fun unmarshal :: "raw \<Rightarrow> QueuedRequest option" where
  "unmarshal (Malformed s) = None"
| "unmarshal (Encoded q extra) = Some q"

definition marshal :: "QueuedRequest \<Rightarrow> raw" where
  "marshal q = Encoded q []"

section \<open>The Redis client, the logger and the channel\<close>

text \<open>
  Every Redis command of the source can return an error, and the source branches on
  it. The store carries the outcomes of the commands still to come (\<open>faults\<close>): each
  command takes the first entry, \<open>Some e\<close> makes it fail with \<open>e\<close> and change nothing,
  \<open>None\<close> and an exhausted list make it succeed. \<open>Wrapped\<close> is \<^verbatim>\<open>fmt.Errorf("..: %w", err)\<close>.
\<close>

datatype error = RedisNil | RedisError string | Wrapped string error

datatype level = Info | Warn | Error

datatype event = Log level string "(string \<times> int) list" | Sleep nat

datatype key = keyPending | keyProcessing | keyFailed

record world =
  pending :: "raw list"
  processing :: "raw list"
  failed :: "raw list"
  faults :: "error option list"
  trace :: "event list"
  ch :: "GDPRRequest list"

fun getlist :: "key \<Rightarrow> world \<Rightarrow> raw list" where
  "getlist keyPending w = pending w"
| "getlist keyProcessing w = processing w"
| "getlist keyFailed w = failed w"

fun setlist :: "key \<Rightarrow> raw list \<Rightarrow> world \<Rightarrow> world" where
  "setlist keyPending xs w = w\<lparr>pending := xs\<rparr>"
| "setlist keyProcessing xs w = w\<lparr>processing := xs\<rparr>"
| "setlist keyFailed xs w = w\<lparr>failed := xs\<rparr>"

definition next_fault :: "world \<Rightarrow> error option \<times> world" where
  "next_fault w = (case faults w of [] \<Rightarrow> (None, w) | f # fs \<Rightarrow> (f, w\<lparr>faults := fs\<rparr>))"

text \<open>\<^verbatim>\<open>LRange(ctx, k, 0, -1)\<close>: the whole list, head first.\<close>

definition LRange :: "key \<Rightarrow> world \<Rightarrow> (error + raw list) \<times> world" where
  "LRange k w = (case next_fault w of
       (Some e, w') \<Rightarrow> (Inl e, w')
     | (None, w') \<Rightarrow> (Inr (getlist k w'), w'))"

text \<open>\<^verbatim>\<open>LRem(ctx, k, 1, v)\<close>: removes the first element equal to \<open>v\<close>, from the head;
  the reply is the number of elements removed.\<close>

definition LRem :: "key \<Rightarrow> raw \<Rightarrow> world \<Rightarrow> (error + nat) \<times> world" where
  "LRem k v w = (case next_fault w of
       (Some e, w') \<Rightarrow> (Inl e, w')
     | (None, w') \<Rightarrow> (Inr (if v \<in> set (getlist k w') then 1 else 0),
                       setlist k (remove1 v (getlist k w')) w'))"

text \<open>\<^verbatim>\<open>LPush(ctx, k, v)\<close>: inserts at the head; the reply is the new length.\<close>

definition LPush :: "key \<Rightarrow> raw \<Rightarrow> world \<Rightarrow> (error + nat) \<times> world" where
  "LPush k v w = (case next_fault w of
       (Some e, w') \<Rightarrow> (Inl e, w')
     | (None, w') \<Rightarrow> (Inr (Suc (length (getlist k w'))), setlist k (v # getlist k w') w'))"

text \<open>
  \<^verbatim>\<open>BRPopLPush(ctx, src, dst, 0)\<close>: atomically takes the last element of \<open>src\<close> and
  inserts it at the head of \<open>dst\<close>. With timeout 0 it waits for as long as \<open>src\<close> is
  empty: \<open>Blocks\<close>.
\<close>

datatype 'a reply = Reply 'a | Fails error | Blocks

definition BRPopLPush :: "key \<Rightarrow> key \<Rightarrow> world \<Rightarrow> raw reply \<times> world" where
  "BRPopLPush src dst w = (case next_fault w of
       (Some e, w') \<Rightarrow> (Fails e, w')
     | (None, w') \<Rightarrow>
         (if getlist src w' = [] then (Blocks, w')
          else (Reply (last (getlist src w')),
                setlist dst (last (getlist src w') # getlist dst (setlist src (butlast (getlist src w')) w'))
                  (setlist src (butlast (getlist src w')) w'))))"

definition log :: "level \<Rightarrow> string \<Rightarrow> (string \<times> int) list \<Rightarrow> world \<Rightarrow> world" where
  "log l msg kvs w = w\<lparr>trace := trace w @ [Log l msg kvs]\<rparr>"

definition sleep :: "nat \<Rightarrow> world \<Rightarrow> world" where
  "sleep secs w = w\<lparr>trace := trace w @ [Sleep secs]\<rparr>"

text \<open>\<^verbatim>\<open>ch <- request\<close>: the requests handed to the dispatcher, oldest first.\<close>

definition send :: "GDPRRequest \<Rightarrow> world \<Rightarrow> world" where
  "send r w = w\<lparr>ch := ch w @ [r]\<rparr>"

section \<open>Acknowledge, Reject and the matching of requests\<close>

text \<open>
  \<^verbatim>\<open>requestsMatch(a, b)\<close> compares \<^verbatim>\<open>Type\<close> and \<^verbatim>\<open>UserId\<close>, then each of the two
  slices: the lengths first, then the elements in a loop over the indices of \<open>a\<close>'s
  slice (\<open>sameElements\<close>). No other field of the request and no field of the envelope
  takes part.
\<close>

fun sameElements :: "'a list \<Rightarrow> 'a list \<Rightarrow> bool" where
  "sameElements (x # xs) (y # ys) = (if x \<noteq> y then False else sameElements xs ys)"
| "sameElements _ _ = True"

definition requestsMatch :: "GDPRRequest \<Rightarrow> GDPRRequest \<Rightarrow> bool" where
  "requestsMatch a b =
     (if Type a \<noteq> Type b \<or> UserId a \<noteq> UserId b then False
      else if length (GuildIds a) \<noteq> length (GuildIds b) then False
      else if \<not> sameElements (GuildIds a) (GuildIds b) then False
      else if length (TicketIds a) \<noteq> length (TicketIds b) then False
      else if \<not> sameElements (TicketIds a) (TicketIds b) then False
      else True)"

text \<open>
  The loop of \<^verbatim>\<open>Acknowledge\<close> over the snapshot \<^verbatim>\<open>processingItems\<close>: an element that
  does not decode is skipped, the first one whose request matches is removed with
  \<^verbatim>\<open>LRem\<close> and the function returns; after the loop, the warning.
\<close>

fun Acknowledge_loop :: "GDPRRequest \<Rightarrow> raw list \<Rightarrow> world \<Rightarrow> error option \<times> world" where
  "Acknowledge_loop request [] w =
     (None, log Warn ''Request not found in processing queue for acknowledgment'' [] w)"
| "Acknowledge_loop request (item # items) w =
     (case unmarshal item of
        None \<Rightarrow> Acknowledge_loop request items w
      | Some queued \<Rightarrow>
          if requestsMatch (Request queued) request then
            (case LRem keyProcessing item w of
               (Inl e, w') \<Rightarrow> (Some (Wrapped ''failed to remove from processing queue'' e), w')
             | (Inr n, w') \<Rightarrow> (None, w'))
          else Acknowledge_loop request items w)"

definition Acknowledge :: "world \<Rightarrow> GDPRRequest \<Rightarrow> error option \<times> world" where
  "Acknowledge w request =
     (case LRange keyProcessing w of
        (Inl e, w') \<Rightarrow> (Some (Wrapped ''failed to read processing queue'' e), w')
      | (Inr processingItems, w') \<Rightarrow> Acknowledge_loop request processingItems w')"

text \<open>
  \<^verbatim>\<open>Reject\<close>: the same scan. The matching element is removed from the processing
  list first; then the counter of the decoded copy is incremented (a 64-bit
  increment), and the copy is encoded again and pushed to the failed list when the
  incremented counter is at least \<^verbatim>\<open>maxRetries\<close>, to the pending list otherwise.
  \<^verbatim>\<open>json.Marshal\<close> cannot fail on this struct, so the branch on its error is not
  taken.
\<close>

definition errOf :: "(error + 'a) \<times> world \<Rightarrow> error option \<times> world" where
  "errOf r = (case r of (Inl e, w) \<Rightarrow> (Some e, w) | (Inr x, w) \<Rightarrow> (None, w))"

fun Reject_loop :: "GDPRRequest \<Rightarrow> raw list \<Rightarrow> world \<Rightarrow> error option \<times> world" where
  "Reject_loop request [] w =
     (None, log Warn ''Request not found in processing queue for rejection'' [] w)"
| "Reject_loop request (item # items) w =
     (case unmarshal item of
        None \<Rightarrow> Reject_loop request items w
      | Some queued \<Rightarrow>
          if requestsMatch (Request queued) request then
            (case LRem keyProcessing item w of
               (Inl removeErr, w') \<Rightarrow>
                 (Some removeErr, log Error ''Failed to remove from processing queue'' [] w')
             | (Inr n, w') \<Rightarrow>
                 (let queued' = queued\<lparr>RetryCount := RetryCount queued + 1\<rparr> in
                  if maxRetries \<le>s RetryCount queued' then
                    errOf (LPush keyFailed (marshal queued')
                      (log Warn ''GDPR request exceeded max retries''
                         [(''retry_count'', sint (RetryCount queued'))] w'))
                  else
                    errOf (LPush keyPending (marshal queued')
                      (log Info ''Requeuing failed GDPR request''
                         [(''retry_count'', sint (RetryCount queued'))] w'))))
          else Reject_loop request items w)"

definition Reject :: "world \<Rightarrow> GDPRRequest \<Rightarrow> error option \<times> world" where
  "Reject w request =
     (case LRange keyProcessing w of
        (Inl e, w') \<Rightarrow> (Some (Wrapped ''failed to read processing queue'' e), w')
      | (Inr processingItems, w') \<Rightarrow> Reject_loop request processingItems w')"

section \<open>Startup recovery and the consumer loop\<close>

text \<open>
  The loop of \<^verbatim>\<open>recoverStalledRequests\<close> runs over the snapshot from its last index
  down to 0; \<open>recover_loop\<close> takes the snapshot reversed and the local counter
  \<^verbatim>\<open>recovered\<close>. The replies of both \<^verbatim>\<open>LRem\<close> calls are discarded by the source,
  errors included.
\<close>

fun recover_loop :: "raw list \<Rightarrow> nat \<Rightarrow> world \<Rightarrow> nat \<times> world" where
  "recover_loop [] recovered w = (recovered, w)"
| "recover_loop (item # rest) recovered w =
     (case unmarshal item of
        None \<Rightarrow>
          recover_loop rest recovered
            (snd (LRem keyProcessing item (log Error ''Failed to unmarshal stalled request'' [] w)))
      | Some queued \<Rightarrow>
          (case LPush keyPending (marshal queued)
                  (log Info ''Recovering stalled request''
                     [(''retry_count'', sint (RetryCount queued))] w) of
             (Inl e, w') \<Rightarrow>
               recover_loop rest recovered (log Error ''Failed to requeue stalled request'' [] w')
           | (Inr n, w') \<Rightarrow>
               recover_loop rest (Suc recovered) (snd (LRem keyProcessing item w'))))"

definition recoverStalledRequests :: "world \<Rightarrow> error option \<times> world" where
  "recoverStalledRequests w =
     (case LRange keyProcessing w of
        (Inl e, w') \<Rightarrow> (Some (Wrapped ''failed to read processing queue'' e), w')
      | (Inr processingItems, w') \<Rightarrow>
          if length processingItems = 0 then (None, w')
          else
            (case recover_loop (rev processingItems) 0
                    (log Info ''Recovering stalled requests''
                       [(''count'', int (length processingItems))] w') of
               (recovered, w'') \<Rightarrow>
                 (None, log Info ''Stalled request recovery complete''
                          [(''recovered'', int recovered)] w'')))"

text \<open>
  One pass through the body of the \<^verbatim>\<open>for\<close> loop of \<^verbatim>\<open>Listen\<close>. The body ends in
  \<^verbatim>\<open>continue\<close> or falls through to the next pass (\<open>Continue\<close>), or it waits in
  \<^verbatim>\<open>BRPopLPush\<close> on an empty pending list (\<open>Waiting\<close>); \<open>Returned\<close> is a
  \<^verbatim>\<open>return\<close> or \<^verbatim>\<open>break\<close>. The assignment to \<^verbatim>\<open>queued.LastAttemptAt\<close> changes the
  local copy only, which is neither stored nor sent.
\<close>

datatype flow = Continue world | Waiting world | Returned "error option" world

definition Listen_body :: "world \<Rightarrow> flow" where
  "Listen_body w =
     (case BRPopLPush keyPending keyProcessing w of
        (Blocks, w') \<Rightarrow> Waiting w'
      | (Fails err, w') \<Rightarrow>
          if err = RedisNil then Continue w'
          else Continue (sleep 5 (log Error ''Failed to read from GDPR queue'' [] w'))
      | (Reply rawData, w') \<Rightarrow>
          (case unmarshal rawData of
             None \<Rightarrow>
               Continue (snd (LRem keyProcessing rawData
                                (log Error ''Failed to unmarshal GDPR request'' [] w')))
           | Some queued \<Rightarrow>
               Continue (send (Request queued)
                          (log Info ''Dequeued GDPR request''
                             [(''retry_count'', sint (RetryCount queued))] w'))))"

text \<open>The loop, for at most \<open>n\<close> passes; it stops where a pass does not continue.\<close>

fun Listen_loop :: "nat \<Rightarrow> world \<Rightarrow> flow" where
  "Listen_loop 0 w = Continue w"
| "Listen_loop (Suc n) w =
     (case Listen_body w of
        Continue w' \<Rightarrow> Listen_loop n w'
      | Waiting w' \<Rightarrow> Waiting w'
      | Returned e w' \<Rightarrow> Returned e w')"

definition Listen :: "nat \<Rightarrow> world \<Rightarrow> flow" where
  "Listen n w =
     (case recoverStalledRequests w of
        (Some err, w') \<Rightarrow> Listen_loop n (log Error ''Failed to recover stalled requests'' [] w')
      | (None, w') \<Rightarrow> Listen_loop n w')"

text \<open>
  Modelled from the spec: \<open>Enqueue\<close>, which this repository does not contain (its
  producer is another program). The spec: "wraps the request in a QueuedItem with
  attempt=0, persists it at the tail of pending", the tail being the end away from
  the one the claim takes from; "Fails with StoreUnavailable if the durable store
  cannot be written". The identifier and the time of queuing are given.
\<close>

definition Enqueue :: "world \<Rightarrow> GDPRRequest \<Rightarrow> string \<Rightarrow> time \<Rightarrow> error option \<times> world" where
  "Enqueue w request rid now =
     errOf (LPush keyPending
       (marshal \<lparr>Request = request, QueuedAt = now, RetryCount = 0, LastAttemptAt = 0,
                 RequestID = rid\<rparr>) w)"

section \<open>Runs of the queue operations\<close>

text \<open>
  The operations as steps on the store: an enqueue by the producer, one pass of the
  consumer loop (a claim), an acknowledgement, a rejection, the recovery that every
  start of the process runs first (so a restart between two operations is
  \<open>DoRecover\<close>), and the store's fate for the commands to come.
\<close>

datatype op =
    DoEnqueue GDPRRequest string time
  | DoClaim
  | DoAcknowledge GDPRRequest
  | DoReject GDPRRequest
  | DoRecover
  | StoreFaults "error option list"

fun world_of :: "flow \<Rightarrow> world" where
  "world_of (Continue w) = w"
| "world_of (Waiting w) = w"
| "world_of (Returned e w) = w"

fun perform :: "op \<Rightarrow> world \<Rightarrow> world" where
  "perform (DoEnqueue request rid now) w = snd (Enqueue w request rid now)"
| "perform DoClaim w = world_of (Listen_body w)"
| "perform (DoAcknowledge request) w = snd (Acknowledge w request)"
| "perform (DoReject request) w = snd (Reject w request)"
| "perform DoRecover w = snd (recoverStalledRequests w)"
| "perform (StoreFaults fs) w = w\<lparr>faults := fs\<rparr>"

fun run :: "op list \<Rightarrow> world \<Rightarrow> world" where
  "run [] w = w"
| "run (a # as) w = run as (perform a w)"

fun enqueues :: "op \<Rightarrow> string set" where
  "enqueues (DoEnqueue request rid now) = {rid}"
| "enqueues _ = {}"

text \<open>The test of the scans, and the request identifiers a list carries.\<close>

definition hit :: "GDPRRequest \<Rightarrow> raw \<Rightarrow> bool" where
  "hit request item =
     (case unmarshal item of
        None \<Rightarrow> False
      | Some queued \<Rightarrow> requestsMatch (Request queued) request)"

definition samePayload :: "GDPRRequest \<Rightarrow> GDPRRequest \<Rightarrow> bool" where
  "samePayload a b =
     (Type a = Type b \<and> UserId a = UserId b \<and> GuildIds a = GuildIds b \<and>
      TicketIds a = TicketIds b)"

definition ids :: "raw list \<Rightarrow> string set" where
  "ids xs = RequestID ` set (List.map_filter unmarshal xs)"



text \<open>The identifiers in any of the three lists, and those that the acknowledgements
  of a run take out of them.\<close>

definition everywhere :: "world \<Rightarrow> string set" where
  "everywhere w = ids (pending w) \<union> ids (processing w) \<union> ids (failed w)"

fun acknowledged :: "op list \<Rightarrow> world \<Rightarrow> string set" where
  "acknowledged [] w = {}"
| "acknowledged (DoAcknowledge request # as) w =
     (everywhere w - everywhere (perform (DoAcknowledge request) w))
       \<union> acknowledged as (perform (DoAcknowledge request) w)"
| "acknowledged (a # as) w = acknowledged as (perform a w)"

fun store_fault :: "op \<Rightarrow> bool" where
  "store_fault (StoreFaults fs) = True"
| "store_fault _ = False"










text \<open>The entries of a list that do not decode, and the error-level entries of a trace.\<close>

definition undecodable :: "raw list \<Rightarrow> raw list" where
  "undecodable xs = filter (\<lambda>x. unmarshal x = None) xs"

fun at_error_level :: "event \<Rightarrow> bool" where
  "at_error_level (Log l m kvs) = (l = Error)"
| "at_error_level (Sleep n) = False"

definition error_logs :: "event list \<Rightarrow> event list" where
  "error_logs t = filter at_error_level t"

definition idle :: world where
  "idle = \<lparr>pending = [], processing = [], failed = [], faults = [], trace = [], ch = []\<rparr>"

section \<open>The dispatcher (cmd/main.go)\<close>

text \<open>
  \<^verbatim>\<open>semaphore := make(chan struct{}, config.Conf.MaxConcurrency)\<close> is a buffered
  channel of capacity \<open>N\<close>; \<open>slots\<close> is the number of values it holds. The dispatcher
  goroutine receives a request from \<^verbatim>\<open>ch\<close>, sends to the semaphore (which waits
  while the channel is full), then starts the task with \<^verbatim>\<open>go\<close>. A task's first
  statement defers \<^verbatim>\<open><-semaphore\<close>, so the receive runs when the task returns and
  when it panics; an unrecovered panic then ends the program. \<open>running\<close> counts the
  tasks started and not yet finished. An action that the program cannot take in a
  state (a send on a full channel, a receive on an empty one) gives \<open>None\<close>. With
  capacity 0 the channel is unbuffered and a send needs a receiver, which only a
  running task provides, so no slot is ever taken; a negative capacity makes
  \<^verbatim>\<open>make\<close> panic before any task starts, and capacities are natural numbers here.
\<close>

datatype pc = AtReceive | AtAcquire | AtSpawn

datatype outcome = Returns | Panics

datatype action = Receive | Acquire | Spawn | Finish outcome

record pool =
  slots :: nat
  running :: nat
  dispatcher :: pc
  halted :: bool

definition start :: pool where
  "start = \<lparr>slots = 0, running = 0, dispatcher = AtReceive, halted = False\<rparr>"

fun step :: "nat \<Rightarrow> action \<Rightarrow> pool \<Rightarrow> pool option" where
  "step N Receive s =
     (if \<not> halted s \<and> dispatcher s = AtReceive then Some (s\<lparr>dispatcher := AtAcquire\<rparr>)
      else None)"
| "step N Acquire s =
     (if \<not> halted s \<and> dispatcher s = AtAcquire \<and> slots s < N
      then Some (s\<lparr>slots := slots s + 1, dispatcher := AtSpawn\<rparr>) else None)"
| "step N Spawn s =
     (if \<not> halted s \<and> dispatcher s = AtSpawn
      then Some (s\<lparr>running := running s + 1, dispatcher := AtReceive\<rparr>) else None)"
| "step N (Finish out) s =
     (if \<not> halted s \<and> 0 < running s \<and> 0 < slots s
      then Some (s\<lparr>slots := slots s - 1, running := running s - 1,
                   halted := (out = Panics)\<rparr>)
      else None)"

fun exec :: "nat \<Rightarrow> action list \<Rightarrow> pool \<Rightarrow> pool option" where
  "exec N [] s = Some s"
| "exec N (a # as) s = (case step N a s of None \<Rightarrow> None | Some s' \<Rightarrow> exec N as s')"

section \<open>Cleaning a transcript (package processor)\<close>

text \<open>
  The types \<^verbatim>\<open>v2.Transcript\<close>, \<^verbatim>\<open>v2.User\<close> and \<^verbatim>\<open>v2.Message\<close> are declared outside
  this repository. They are records with the fields the function reads and writes;
  whatever else a message, the entities or a transcript carry is the extension of the
  record. A Go map can be
  nil, which is \<open>None\<close>; a nil slice is the empty list. The counter cannot overflow,
  a slice having fewer than \<open>2 ^ 63\<close> elements, and is a natural number.
\<close>

record User =
  Id' :: uint64
  Username :: string
  Avatar :: string
  Bot :: bool

record ('e, 'a) Message =
  AuthorId :: uint64
  Content :: string
  Embeds :: "'e list"
  Attachments :: "'a list"

record ('c, 'r) Entities =
  Users :: "(uint64 \<rightharpoonup> User) option"
  Channels :: "(uint64 \<rightharpoonup> 'c) option"
  Roles :: "(uint64 \<rightharpoonup> 'r) option"

record ('e, 'a, 'm, 'c, 'r, 'x) Transcript =
  Entities :: "('c, 'r, 'x) Entities_scheme"
  Messages :: "('e, 'a, 'm) Message_scheme list"

definition anonymizedUser :: User where
  "anonymizedUser = \<lparr>Id' = 0, Username = ''Removed for privacy'', Avatar = [], Bot = False\<rparr>"

definition notice :: string where
  "notice = ''[This message was removed in accordance with data protection regulations]''"

definition make_if_nil :: "('k \<rightharpoonup> 'v) option \<Rightarrow> ('k \<rightharpoonup> 'v)" where
  "make_if_nil m = (case m of None \<Rightarrow> Map.empty | Some f \<Rightarrow> f)"

text \<open>The loop over \<^verbatim>\<open>transcript.Messages\<close>, with the local \<^verbatim>\<open>count\<close> (\<open>cnt\<close>).\<close>

fun clean_loop ::
  "uint64 \<Rightarrow> ('e, 'a, 'm) Message_scheme list \<Rightarrow> nat \<Rightarrow> ('e, 'a, 'm) Message_scheme list \<times> nat"
where
  "clean_loop userId [] cnt = ([], cnt)"
| "clean_loop userId (msg # msgs) cnt =
     (if AuthorId msg = userId then
        (case clean_loop userId msgs (cnt + 1) of
           (msgs', cnt') \<Rightarrow>
             (msg\<lparr>AuthorId := 0, Content := notice, Embeds := [], Attachments := []\<rparr> # msgs',
              cnt'))
      else
        (case clean_loop userId msgs cnt of
           (msgs', cnt') \<Rightarrow> (msg # msgs', cnt')))"

definition cleanMessagesInTranscript ::
  "('e, 'a, 'm, 'c, 'r, 'x, 'y) Transcript_scheme \<Rightarrow> uint64 \<Rightarrow>
   nat \<times> ('e, 'a, 'm, 'c, 'r, 'x, 'y) Transcript_scheme"
where
  "cleanMessagesInTranscript transcript userId =
     (let users = make_if_nil (Users (Entities transcript));
          channels = make_if_nil (Channels (Entities transcript));
          roles = make_if_nil (Roles (Entities transcript));
          users' = (users(userId \<mapsto> anonymizedUser))(0 \<mapsto> anonymizedUser)
      in case clean_loop userId (Messages transcript) 0 of
           (msgs, cnt) \<Rightarrow>
             (cnt,
              transcript\<lparr>Entities := (Entities transcript)\<lparr>Users := Some users',
                                          Channels := Some channels, Roles := Some roles\<rparr>,
                         Messages := msgs\<rparr>))"

section \<open>Example data\<close>

definition request0 :: GDPRRequest where
  "request0 = \<lparr>Type = 2, UserId = 7, GuildIds = [11], TicketIds = [], Language = ''en'',
     InteractionToken = [], InteractionGuildId = 0, ApplicationId = 0\<rparr>"

definition queued0 :: "string \<Rightarrow> go_int \<Rightarrow> QueuedRequest" where
  "queued0 rid n = \<lparr>Request = request0, QueuedAt = 0, RetryCount = n, LastAttemptAt = 0,
     RequestID = rid\<rparr>"

definition transcript0 :: "(unit, unit, unit, unit, unit, unit) Transcript" where
  "transcript0 =
     \<lparr>Entities = \<lparr>Users = None, Channels = None, Roles = None\<rparr>,
      Messages = [\<lparr>AuthorId = 7, Content = ''hello'', Embeds = [()], Attachments = []\<rparr>,
                  \<lparr>AuthorId = 8, Content = ''welcome'', Embeds = [], Attachments = [()]\<rparr>,
                  \<lparr>AuthorId = 7, Content = ''thanks'', Embeds = [], Attachments = []\<rparr>]\<rparr>"


section \<open>Facts about the store commands\<close>

lemma sameElements_eq: "length xs = length ys \<Longrightarrow> sameElements xs ys = (xs = ys)"
  by (induction xs ys rule: sameElements.induct) auto

lemma requestsMatch_iff: "requestsMatch a b = samePayload a b"
  by (auto simp: requestsMatch_def samePayload_def sameElements_eq)

lemma hit_Encoded: "hit request (Encoded q extra) = samePayload (Request q) request"
  by (simp add: hit_def requestsMatch_iff)

lemma hit_Malformed: "hit request (Malformed s) = False"
  by (simp add: hit_def)

lemma next_fault_ok: "faults w = [] \<Longrightarrow> next_fault w = (None, w)"
  by (simp add: next_fault_def)

lemma faults_setlist: "faults (setlist k xs w) = faults w"
  by (cases k) simp_all

lemma faults_log: "faults (log l m kvs w) = faults w"
  by (simp add: log_def)

lemma LRange_ok: "faults w = [] \<Longrightarrow> LRange k w = (Inr (getlist k w), w)"
  by (simp add: LRange_def next_fault_ok)

lemma LRem_ok: "faults w = [] \<Longrightarrow>
    LRem k v w = (Inr (if v \<in> set (getlist k w) then 1 else 0), setlist k (remove1 v (getlist k w)) w)"
  by (simp add: LRem_def next_fault_ok)

lemma LPush_ok: "faults w = [] \<Longrightarrow>
    LPush k v w = (Inr (Suc (length (getlist k w))), setlist k (v # getlist k w) w)"
  by (simp add: LPush_def next_fault_ok)

lemma remove1_first: "item \<notin> set xs \<Longrightarrow> remove1 item (xs @ item # ys) = xs @ ys"
  by (induction xs) auto

section \<open>Acknowledge and Reject find the first entry with the same payload\<close>

lemma Acknowledge_loop_hit:
  "\<forall>x\<in>set xs. \<not> hit request x \<Longrightarrow> hit request item \<Longrightarrow>
   Acknowledge_loop request (xs @ item # ys) w =
     (case LRem keyProcessing item w of
        (Inl e, w') \<Rightarrow> (Some (Wrapped ''failed to remove from processing queue'' e), w')
      | (Inr n, w') \<Rightarrow> (None, w'))"
  by (induction xs) (auto simp: hit_def split: option.splits)

lemma Acknowledge_loop_miss:
  "\<forall>x\<in>set xs. \<not> hit request x \<Longrightarrow>
   Acknowledge_loop request xs w =
     (None, log Warn ''Request not found in processing queue for acknowledgment'' [] w)"
  by (induction xs) (auto simp: hit_def split: option.splits)

lemma Acknowledge_first_hit:
  assumes "faults w = []" "processing w = xs @ item # ys"
    "\<forall>x\<in>set xs. \<not> hit request x" "hit request item"
  shows "Acknowledge w request = (None, w\<lparr>processing := xs @ ys\<rparr>)"
proof -
  have "item \<notin> set xs" using assms(3,4) by auto
  then show ?thesis
    using assms by (simp add: Acknowledge_def LRange_ok Acknowledge_loop_hit LRem_ok remove1_first)
qed

lemma Reject_loop_hit:
  "\<forall>x\<in>set xs. \<not> hit request x \<Longrightarrow> hit request item \<Longrightarrow>
   Reject_loop request (xs @ item # ys) w = Reject_loop request [item] w"
  by (induction xs) (auto simp: hit_def split: option.splits)

lemma Reject_loop_miss:
  "\<forall>x\<in>set xs. \<not> hit request x \<Longrightarrow>
   Reject_loop request xs w =
     (None, log Warn ''Request not found in processing queue for rejection'' [] w)"
  by (induction xs) (auto simp: hit_def split: option.splits)

lemma sint_maxRetries: "(maxRetries \<le>s c) = (3 \<le> sint c)"
  by (simp add: maxRetries_def word_sle_eq)

lemma sint_incr:
  fixes c :: go_int
  assumes "sint c < 2 ^ 63 - 1"
  shows "sint (c + 1) = sint c + 1"
proof -
  have "- (2 ^ 63) \<le> sint c" using sint_ge [of c] by simp
  then show ?thesis using assms
    by (simp add: sint_word_ariths signed_take_bit_int_eq_self)
qed

lemma Reject_first_hit:
  assumes "faults w = []" "processing w = xs @ item # ys"
    "\<forall>x\<in>set xs. \<not> hit request x" "unmarshal item = Some queued"
    "requestsMatch (Request queued) request"
  shows "Reject w request =
    (None,
     if 3 \<le> sint (RetryCount queued + 1) then
       w\<lparr>processing := xs @ ys,
         failed := marshal (queued\<lparr>RetryCount := RetryCount queued + 1\<rparr>) # failed w,
         trace := trace w @ [Log Warn ''GDPR request exceeded max retries''
                   [(''retry_count'', sint (RetryCount queued + 1))]]\<rparr>
     else
       w\<lparr>processing := xs @ ys,
         pending := marshal (queued\<lparr>RetryCount := RetryCount queued + 1\<rparr>) # pending w,
         trace := trace w @ [Log Info ''Requeuing failed GDPR request''
                   [(''retry_count'', sint (RetryCount queued + 1))]]\<rparr>)"
proof -
  have h: "hit request item" using assms(4,5) by (simp add: hit_def)
  then have "item \<notin> set xs" using assms(3) by auto
  then show ?thesis
    using assms h
    by (simp add: Reject_def LRange_ok Reject_loop_hit LRem_ok LPush_ok remove1_first
        sint_maxRetries errOf_def log_def Let_def)
qed

text \<open>
  C1 (as amended). \<^verbatim>\<open>Acknowledge\<close> and \<^verbatim>\<open>Reject\<close> locate the entry by the payload:
  when no store command fails, the entry taken out of the processing list is the
  first one, from the head, that decodes and whose request has the same \<^verbatim>\<open>Type\<close>,
  \<^verbatim>\<open>UserId\<close>, \<^verbatim>\<open>GuildIds\<close> and \<^verbatim>\<open>TicketIds\<close> as the request given, whatever
  \<^verbatim>\<open>RequestID\<close> its envelope carries.
\<close>

theorem Acknowledge_Reject_match_by_payload:
  assumes "faults w = []"
    and "processing w = xs @ Encoded q extra # ys"
    and "samePayload (Request q) request"
    and "\<forall>x\<in>set xs. \<not> hit request x"
  shows "Acknowledge w request = (None, w\<lparr>processing := xs @ ys\<rparr>) \<and>
         fst (Reject w request) = None \<and>
         processing (snd (Reject w request)) = xs @ ys"
proof -
  have h: "hit request (Encoded q extra)"
    using assms(3) by (simp add: hit_Encoded)
  have m: "requestsMatch (Request q) request"
    using assms(3) by (simp add: requestsMatch_iff)
  have "Acknowledge w request = (None, w\<lparr>processing := xs @ ys\<rparr>)"
    using assms(1,2,4) h by (rule Acknowledge_first_hit)
  moreover have "fst (Reject w request) = None \<and> processing (snd (Reject w request)) = xs @ ys"
    using Reject_first_hit [OF assms(1,2,4) _ m] by simp
  ultimately show ?thesis by simp
qed

theorem Acknowledge_Reject_match_by_payload_witness:
  "Acknowledge (idle\<lparr>processing := [marshal (queued0 ''B'' 0), marshal (queued0 ''A'' 0)]\<rparr>) request0
     = (None, idle\<lparr>processing := [marshal (queued0 ''A'' 0)]\<rparr>) \<and>
   processing (snd (Reject (idle\<lparr>processing := [marshal (queued0 ''B'' 0), marshal (queued0 ''A'' 0)]\<rparr>) request0))
     = [marshal (queued0 ''A'' 0)]"
  using Acknowledge_Reject_match_by_payload
    [where w = "idle\<lparr>processing := [marshal (queued0 ''B'' 0), marshal (queued0 ''A'' 0)]\<rparr>"
       and xs = "[]" and q = "queued0 ''B'' 0" and extra = "[]"
       and ys = "[marshal (queued0 ''A'' 0)]" and request = request0]
  by (simp add: idle_def marshal_def queued0_def samePayload_def)

theorem Acknowledge_by_requestId_counterexample:
  "RequestID (queued0 ''A'' 0) \<noteq> RequestID (queued0 ''B'' 0) \<and>
   Request (queued0 ''A'' 0) = Request (queued0 ''B'' 0) \<and>
   Acknowledge (idle\<lparr>processing := [marshal (queued0 ''B'' 0), marshal (queued0 ''A'' 0)]\<rparr>)
       (Request (queued0 ''A'' 0))
     = (None, idle\<lparr>processing := [marshal (queued0 ''A'' 0)]\<rparr>)"
  by (simp add: idle_def marshal_def queued0_def request0_def Acknowledge_def LRange_def
      LRem_def next_fault_def requestsMatch_def)


section \<open>The retry counter\<close>

text \<open>
  C3 (as amended). For an in-flight item with retry counter \<open>a\<close> (below the largest
  64-bit integer, so that the increment does not wrap), \<^verbatim>\<open>Reject\<close> with the store
  answering every command takes it out of the processing list and moves it back to
  pending with counter \<open>a + 1\<close> exactly when \<open>a + 1 < maxRetries\<close>, and to the
  dead-letter (failed) list with counter \<open>a + 1\<close> exactly when \<open>a + 1 \<ge> maxRetries\<close>,
  where \<open>maxRetries = 3\<close>.
\<close>

theorem Reject_requeues_below_maxRetries:
  assumes "faults w = []"
    and "processing w = xs @ item # ys"
    and "\<forall>x\<in>set xs. \<not> hit request x"
    and "unmarshal item = Some queued"
    and "requestsMatch (Request queued) request"
    and "sint (RetryCount queued) < 2 ^ 63 - 1"
  shows "sint maxRetries = 3 \<and>
    sint (RetryCount queued + 1) = sint (RetryCount queued) + 1 \<and>
    processing (snd (Reject w request)) = xs @ ys \<and>
    pending (snd (Reject w request)) =
      (if sint (RetryCount queued) + 1 < sint maxRetries
       then marshal (queued\<lparr>RetryCount := RetryCount queued + 1\<rparr>) # pending w
       else pending w) \<and>
    failed (snd (Reject w request)) =
      (if sint maxRetries \<le> sint (RetryCount queued) + 1
       then marshal (queued\<lparr>RetryCount := RetryCount queued + 1\<rparr>) # failed w
       else failed w)"
proof -
  have i: "sint (RetryCount queued + 1) = sint (RetryCount queued) + 1"
    using assms(6) by (rule sint_incr)
  have m: "sint maxRetries = 3" by (simp add: maxRetries_def)
  show ?thesis
    unfolding Reject_first_hit [OF assms(1-5)] m i by simp
qed

theorem Reject_requeues_below_maxRetries_witness:
  "pending (snd (Reject (idle\<lparr>processing := [marshal (queued0 ''A'' 0)]\<rparr>) request0))
     = [marshal (queued0 ''A'' 1)] \<and>
   failed (snd (Reject (idle\<lparr>processing := [marshal (queued0 ''A'' 0)]\<rparr>) request0)) = [] \<and>
   processing (snd (Reject (idle\<lparr>processing := [marshal (queued0 ''A'' 0)]\<rparr>) request0)) = []"
  using Reject_requeues_below_maxRetries
    [where w = "idle\<lparr>processing := [marshal (queued0 ''A'' 0)]\<rparr>" and xs = "[]"
       and item = "marshal (queued0 ''A'' 0)" and ys = "[]" and queued = "queued0 ''A'' 0"
       and request = request0]
  by (simp add: idle_def marshal_def queued0_def requestsMatch_iff samePayload_def maxRetries_def)

theorem Reject_at_two_counterexample:
  "sint (RetryCount (queued0 ''A'' 2)) < sint maxRetries \<and>
   processing (idle\<lparr>processing := [marshal (queued0 ''A'' 2)]\<rparr>) = [marshal (queued0 ''A'' 2)] \<and>
   pending (snd (Reject (idle\<lparr>processing := [marshal (queued0 ''A'' 2)]\<rparr>) request0)) = [] \<and>
   failed (snd (Reject (idle\<lparr>processing := [marshal (queued0 ''A'' 2)]\<rparr>) request0))
     = [marshal (queued0 ''A'' 3)]"
  by (simp add: idle_def marshal_def queued0_def request0_def Reject_def LRange_def
      LRem_def LPush_def next_fault_def requestsMatch_def maxRetries_def errOf_def log_def
      word_sle_eq)


section \<open>What no operation does: take an entry out of the failed list\<close>

lemma ids_Nil: "ids [] = {}"
  by (simp add: ids_def)

lemma ids_Cons:
  "ids (x # xs) = (case unmarshal x of None \<Rightarrow> {} | Some q \<Rightarrow> {RequestID q}) \<union> ids xs"
  by (cases "unmarshal x") (auto simp: ids_def)

lemma ids_append: "ids (xs @ ys) = ids xs \<union> ids ys"
  by (induction xs) (auto simp: ids_Nil ids_Cons)



lemma ids_marshal: "ids (marshal q # xs) = insert (RequestID q) (ids xs)"
  by (simp add: ids_Cons marshal_def)













lemma snd_errOf: "snd (errOf r) = snd r"
  by (auto simp: errOf_def split: prod.splits sum.splits)














section \<open>A claim\<close>

lemma BRPopLPush_ok:
  "faults w = [] \<Longrightarrow> pending w = ps @ [x] \<Longrightarrow>
   BRPopLPush keyPending keyProcessing w = (Reply x, w\<lparr>pending := ps, processing := x # processing w\<rparr>)"
  by (simp add: BRPopLPush_def next_fault_ok)

lemma Listen_body_claim:
  assumes "faults w = []" "pending w = ps @ [Encoded q extra]"
  shows "Listen_body w =
    Continue (w\<lparr>pending := ps, processing := Encoded q extra # processing w,
                trace := trace w @ [Log Info ''Dequeued GDPR request''
                                      [(''retry_count'', sint (RetryCount q))]],
                ch := ch w @ [Request q]\<rparr>)"
  using assms by (simp add: Listen_body_def BRPopLPush_ok log_def send_def)


section \<open>The recovery at startup\<close>

lemma map_filter_unmarshal_marshal: "List.map_filter unmarshal (map marshal qs) = qs"
  by (induction qs) (simp_all add: marshal_def)

lemma map_filter_append: "List.map_filter f (xs @ ys) = List.map_filter f xs @ List.map_filter f ys"
  by (simp add: map_filter_def)

lemma map_filter_rev: "List.map_filter f (rev xs) = rev (List.map_filter f xs)"
  by (simp add: map_filter_def rev_map rev_filter)

lemma recover_loop_ok:
  "faults w = [] \<Longrightarrow> mset (processing w) = mset items \<Longrightarrow>
   fst (recover_loop items n w) = n + length (List.map_filter unmarshal items) \<and>
   faults (snd (recover_loop items n w)) = [] \<and>
   processing (snd (recover_loop items n w)) = [] \<and>
   pending (snd (recover_loop items n w)) =
     rev (map marshal (List.map_filter unmarshal items)) @ pending w \<and>
   failed (snd (recover_loop items n w)) = failed w \<and>
   ch (snd (recover_loop items n w)) = ch w"
proof (induction items arbitrary: n w)
  case Nil
  then show ?case by simp
next
  case (Cons item items)
  show ?case
  proof (cases "unmarshal item")
    case None
    let ?w1 = "snd (LRem keyProcessing item (log Error ''Failed to unmarshal stalled request'' [] w))"
    have w1: "?w1 = (log Error ''Failed to unmarshal stalled request'' [] w)
                      \<lparr>processing := remove1 item (processing w)\<rparr>"
      using Cons.prems(1) by (simp add: LRem_ok faults_log) (simp add: log_def)
    have "faults ?w1 = []" "mset (processing ?w1) = mset items"
      "pending ?w1 = pending w" "failed ?w1 = failed w" "ch ?w1 = ch w"
      unfolding w1 using Cons.prems by (simp_all add: log_def)
    then show ?thesis
      using Cons.IH [of ?w1 n] None by simp
  next
    case (Some queued)
    let ?w0 = "log Info ''Recovering stalled request'' [(''retry_count'', sint (RetryCount queued))] w"
    let ?w1 = "?w0\<lparr>pending := marshal queued # pending w\<rparr>"
    let ?w2 = "?w1\<lparr>processing := remove1 item (processing w)\<rparr>"
    have p: "LPush keyPending (marshal queued) ?w0 = (Inr (Suc (length (pending w))), ?w1)"
      using Cons.prems(1) by (simp add: LPush_ok faults_log) (simp add: log_def)
    have r: "snd (LRem keyProcessing item ?w1) = ?w2"
      using Cons.prems(1) by (simp add: LRem_ok log_def)
    have "faults ?w2 = []" "mset (processing ?w2) = mset items"
      "pending ?w2 = marshal queued # pending w" "failed ?w2 = failed w" "ch ?w2 = ch w"
      using Cons.prems by (simp_all add: log_def)
    then show ?thesis
      using Cons.IH [of ?w2 "Suc n"] Some p r by simp
  qed
qed

lemma recoverStalledRequests_empty:
  "faults w = [] \<Longrightarrow> processing w = [] \<Longrightarrow> recoverStalledRequests w = (None, w)"
  by (simp add: recoverStalledRequests_def LRange_ok)

lemma recoverStalledRequests_ok:
  assumes "faults w = []"
  shows "fst (recoverStalledRequests w) = None \<and>
    faults (snd (recoverStalledRequests w)) = [] \<and>
    processing (snd (recoverStalledRequests w)) = [] \<and>
    pending (snd (recoverStalledRequests w)) =
      map marshal (List.map_filter unmarshal (processing w)) @ pending w \<and>
    failed (snd (recoverStalledRequests w)) = failed w \<and>
    ch (snd (recoverStalledRequests w)) = ch w"
proof (cases "processing w = []")
  case True
  then show ?thesis using assms by (simp add: recoverStalledRequests_empty)
next
  case False
  let ?w0 = "log Info ''Recovering stalled requests'' [(''count'', int (length (processing w)))] w"
  have "faults ?w0 = []" "mset (processing ?w0) = mset (rev (processing w))"
    "pending ?w0 = pending w" "failed ?w0 = failed w" "ch ?w0 = ch w"
    using assms by (simp_all add: log_def)
  from recover_loop_ok [OF this(1,2), of 0] this(3-5)
  have l: "faults (snd (recover_loop (rev (processing w)) 0 ?w0)) = [] \<and>
      processing (snd (recover_loop (rev (processing w)) 0 ?w0)) = [] \<and>
      pending (snd (recover_loop (rev (processing w)) 0 ?w0)) =
        map marshal (List.map_filter unmarshal (processing w)) @ pending w \<and>
      failed (snd (recover_loop (rev (processing w)) 0 ?w0)) = failed w \<and>
      ch (snd (recover_loop (rev (processing w)) 0 ?w0)) = ch w"
    by (simp add: map_filter_rev rev_map)
  obtain m v where e: "recover_loop (rev (processing w)) 0 ?w0 = (m, v)"
    by (cases "recover_loop (rev (processing w)) 0 ?w0")
  have "recoverStalledRequests w =
      (None, log Info ''Stalled request recovery complete'' [(''recovered'', int m)] v)"
    using assms False e by (simp add: recoverStalledRequests_def LRange_ok)
  then show ?thesis
    using l e by (simp add: log_def)
qed

text \<open>
  C5 (as amended). With the store answering every command, the recovery at startup
  (\<^verbatim>\<open>recoverStalledRequests\<close>) leaves the processing list empty and puts every entry
  of it that decodes at the head of the pending list, in the order they had; what
  the moved entries decode to (the request, the retry counter and the other fields
  of the envelope) is what it was before. On an empty processing list it changes
  nothing, and run a second time it changes nothing, so it recovers no item.
\<close>

theorem recoverStalledRequests_moves_in_flight_to_pending:
  assumes "faults w = []"
    and "w' = snd (recoverStalledRequests w)"
  shows "fst (recoverStalledRequests w) = None \<and>
    processing w' = [] \<and>
    pending w' = map marshal (List.map_filter unmarshal (processing w)) @ pending w \<and>
    List.map_filter unmarshal (pending w') =
      List.map_filter unmarshal (processing w) @ List.map_filter unmarshal (pending w) \<and>
    failed w' = failed w \<and>
    (processing w = [] \<longrightarrow> recoverStalledRequests w = (None, w)) \<and>
    recoverStalledRequests w' = (None, w')"
proof -
  note ok = recoverStalledRequests_ok [OF assms(1)]
  have "List.map_filter unmarshal (pending w') =
      List.map_filter unmarshal (processing w) @ List.map_filter unmarshal (pending w)"
    using ok by (simp add: assms(2) map_filter_append map_filter_unmarshal_marshal)
  moreover have "recoverStalledRequests w' = (None, w')"
    using ok by (simp add: assms(2) recoverStalledRequests_empty)
  moreover have "processing w = [] \<longrightarrow> recoverStalledRequests w = (None, w)"
    using assms(1) by (simp add: recoverStalledRequests_empty)
  ultimately show ?thesis using ok by (simp add: assms(2))
qed

theorem recoverStalledRequests_moves_in_flight_to_pending_witness:
  "processing (snd (recoverStalledRequests
      (idle\<lparr>processing := [marshal (queued0 ''B'' 1), Malformed ''{'', marshal (queued0 ''A'' 2)],
            pending := [marshal (queued0 ''C'' 0)]\<rparr>))) = [] \<and>
   pending (snd (recoverStalledRequests
      (idle\<lparr>processing := [marshal (queued0 ''B'' 1), Malformed ''{'', marshal (queued0 ''A'' 2)],
            pending := [marshal (queued0 ''C'' 0)]\<rparr>)))
     = [marshal (queued0 ''B'' 1), marshal (queued0 ''A'' 2), marshal (queued0 ''C'' 0)]"
  using recoverStalledRequests_moves_in_flight_to_pending
    [where w = "idle\<lparr>processing := [marshal (queued0 ''B'' 1), Malformed ''{'', marshal (queued0 ''A'' 2)],
            pending := [marshal (queued0 ''C'' 0)]\<rparr>", OF _ refl]
  by (simp add: idle_def marshal_def)

theorem recovery_with_failing_removal_counterexample:
  "pending (snd (recoverStalledRequests
      (idle\<lparr>processing := [marshal (queued0 ''A'' 0)],
            faults := [None, None, Some (RedisError ''connection lost'')]\<rparr>)))
     = [marshal (queued0 ''A'' 0)] \<and>
   processing (snd (recoverStalledRequests
      (idle\<lparr>processing := [marshal (queued0 ''A'' 0)],
            faults := [None, None, Some (RedisError ''connection lost'')]\<rparr>)))
     = [marshal (queued0 ''A'' 0)] \<and>
   faults (snd (recoverStalledRequests
      (idle\<lparr>processing := [marshal (queued0 ''A'' 0)],
            faults := [None, None, Some (RedisError ''connection lost'')]\<rparr>))) = [] \<and>
   pending (snd (recoverStalledRequests (snd (recoverStalledRequests
      (idle\<lparr>processing := [marshal (queued0 ''A'' 0)],
            faults := [None, None, Some (RedisError ''connection lost'')]\<rparr>)))))
     = [marshal (queued0 ''A'' 0), marshal (queued0 ''A'' 0)] \<and>
   recoverStalledRequests (snd (recoverStalledRequests
      (idle\<lparr>processing := [marshal (queued0 ''A'' 0)],
            faults := [None, None, Some (RedisError ''connection lost'')]\<rparr>)))
     \<noteq> (None, snd (recoverStalledRequests
      (idle\<lparr>processing := [marshal (queued0 ''A'' 0)],
            faults := [None, None, Some (RedisError ''connection lost'')]\<rparr>)))"
  by (simp add: idle_def marshal_def queued0_def recoverStalledRequests_def LRange_def LPush_def
      LRem_def next_fault_def log_def)


section \<open>Entries that do not decode\<close>

lemma trace_LRem: "trace (snd (LRem k v w)) = trace w"
  by (cases k) (auto simp: LRem_def next_fault_def split: list.splits option.splits)

lemma trace_LPush: "trace (snd (LPush k v w)) = trace w"
  by (cases k) (auto simp: LPush_def next_fault_def split: list.splits option.splits)

lemma trace_log: "trace (log l m kvs w) = trace w @ [Log l m kvs]"
  by (simp add: log_def)

lemma recover_loop_trace_mono:
  "set (trace w) \<subseteq> set (trace (snd (recover_loop items n w)))"
proof (induction items arbitrary: n w)
  case Nil
  then show ?case by simp
next
  case (Cons item items)
  show ?case
  proof (cases "unmarshal item")
    case None
    have "set (trace w) \<subseteq> set (trace (snd (LRem keyProcessing item
            (log Error ''Failed to unmarshal stalled request'' [] w))))"
      by (auto simp: trace_LRem trace_log)
    then show ?thesis using None Cons.IH by simp blast
  next
    case (Some queued)
    obtain r w' where l: "LPush keyPending (marshal queued)
        (log Info ''Recovering stalled request'' [(''retry_count'', sint (RetryCount queued))] w)
        = (r, w')"
      by (cases "LPush keyPending (marshal queued)
        (log Info ''Recovering stalled request'' [(''retry_count'', sint (RetryCount queued))] w)")
    have t: "set (trace w) \<subseteq> set (trace w')"
      using trace_LPush [of keyPending "marshal queued"
          "log Info ''Recovering stalled request'' [(''retry_count'', sint (RetryCount queued))] w"] l
      by (auto simp: trace_log)
    show ?thesis
    proof (cases r)
      case (Inl e)
      have "set (trace w) \<subseteq> set (trace (log Error ''Failed to requeue stalled request'' [] w'))"
        using t by (auto simp: trace_log)
      then show ?thesis using Some l Inl Cons.IH by simp blast
    next
      case (Inr m)
      have "set (trace w) \<subseteq> set (trace (snd (LRem keyProcessing item w')))"
        using t by (simp add: trace_LRem)
      then show ?thesis using Some l Inr Cons.IH by simp blast
    qed
  qed
qed

lemma recover_loop_logs_malformed:
  "item \<in> set items \<Longrightarrow> unmarshal item = None \<Longrightarrow>
   Log Error ''Failed to unmarshal stalled request'' [] \<in> set (trace (snd (recover_loop items n w)))"
proof (induction items arbitrary: n w)
  case Nil
  then show ?case by simp
next
  case (Cons x items)
  show ?case
  proof (cases "unmarshal x")
    case None
    have "Log Error ''Failed to unmarshal stalled request'' [] \<in>
        set (trace (snd (LRem keyProcessing x
            (log Error ''Failed to unmarshal stalled request'' [] w))))"
      by (simp add: trace_LRem trace_log)
    then show ?thesis
      using None recover_loop_trace_mono
        [of "snd (LRem keyProcessing x (log Error ''Failed to unmarshal stalled request'' [] w))"
            items n]
      by auto
  next
    case (Some queued)
    then have "item \<in> set items" using Cons.prems by auto
    then show ?thesis using Some Cons.IH Cons.prems(2)
      by (auto split: prod.splits sum.splits)
  qed
qed

lemma recoverStalledRequests_logs_malformed:
  assumes "faults w = []" "item \<in> set (processing w)" "unmarshal item = None"
  shows "Log Error ''Failed to unmarshal stalled request'' []
           \<in> set (trace (snd (recoverStalledRequests w)))"
proof -
  let ?w0 = "log Info ''Recovering stalled requests'' [(''count'', int (length (processing w)))] w"
  have ne: "processing w \<noteq> []" using assms(2) by auto
  obtain m v where e: "recover_loop (rev (processing w)) 0 ?w0 = (m, v)"
    by (cases "recover_loop (rev (processing w)) 0 ?w0")
  have "Log Error ''Failed to unmarshal stalled request'' [] \<in> set (trace v)"
    using recover_loop_logs_malformed [of item "rev (processing w)" 0 ?w0] assms(2,3) e by simp
  moreover have "recoverStalledRequests w =
      (None, log Info ''Stalled request recovery complete'' [(''recovered'', int m)] v)"
    using assms(1) ne e by (simp add: recoverStalledRequests_def LRange_ok)
  ultimately show ?thesis by (simp add: trace_log)
qed

lemma Listen_body_malformed:
  assumes "faults w = []" "pending w = ps @ [item]" "unmarshal item = None"
  shows "Listen_body w =
    Continue (w\<lparr>pending := ps,
                trace := trace w @ [Log Error ''Failed to unmarshal GDPR request'' []]\<rparr>)"
  using assms by (simp add: Listen_body_def BRPopLPush_ok LRem_ok log_def)

lemma undecodable_append: "undecodable (xs @ ys) = undecodable xs @ undecodable ys"
  by (simp add: undecodable_def)

lemma undecodable_Cons:
  "undecodable (x # xs) = (if unmarshal x = None then x # undecodable xs else undecodable xs)"
  by (simp add: undecodable_def)

lemma hit_decodes: "hit request item \<Longrightarrow> unmarshal item \<noteq> None"
  by (auto simp: hit_def split: option.splits)

lemma Acknowledge_skips_undecodable:
  assumes "faults w = []"
  shows "undecodable (processing (snd (Acknowledge w request))) = undecodable (processing w) \<and>
    pending (snd (Acknowledge w request)) = pending w \<and>
    failed (snd (Acknowledge w request)) = failed w \<and>
    error_logs (trace (snd (Acknowledge w request))) = error_logs (trace w)"
proof (cases "\<exists>x\<in>set (processing w). hit request x")
  case True
  then obtain xs item ys where s: "processing w = xs @ item # ys" "hit request item"
      "\<forall>x\<in>set xs. \<not> hit request x"
    using split_list_first_prop [of "processing w" "hit request"] by blast
  show ?thesis
    unfolding Acknowledge_first_hit [OF assms s(1,3,2)]
    using s(1) hit_decodes [OF s(2)] by (simp add: undecodable_append undecodable_Cons)
next
  case False
  then show ?thesis
    using assms
    by (simp add: Acknowledge_def LRange_ok Acknowledge_loop_miss log_def error_logs_def)
qed

lemma Reject_skips_undecodable:
  assumes "faults w = []"
  shows "undecodable (processing (snd (Reject w request))) = undecodable (processing w) \<and>
    undecodable (pending (snd (Reject w request))) = undecodable (pending w) \<and>
    undecodable (failed (snd (Reject w request))) = undecodable (failed w) \<and>
    error_logs (trace (snd (Reject w request))) = error_logs (trace w)"
proof (cases "\<exists>x\<in>set (processing w). hit request x")
  case True
  then obtain xs item ys where s: "processing w = xs @ item # ys" "hit request item"
      "\<forall>x\<in>set xs. \<not> hit request x"
    using split_list_first_prop [of "processing w" "hit request"] by blast
  from s(2) obtain queued where q: "unmarshal item = Some queued"
      "requestsMatch (Request queued) request"
    by (auto simp: hit_def split: option.splits)
  show ?thesis
    unfolding Reject_first_hit [OF assms s(1,3) q]
    using s(1) q(1)
    by (simp add: undecodable_append undecodable_Cons error_logs_def marshal_def)
next
  case False
  then show ?thesis
    using assms
    by (simp add: Reject_def LRange_ok Reject_loop_miss log_def error_logs_def)
qed

lemma in_undecodable: "(item \<in> set (undecodable xs)) = (item \<in> set xs \<and> unmarshal item = None)"
  by (auto simp: undecodable_def)

text \<open>
  C6 (as amended). With the store answering every command: a claimed entry that does
  not decode is taken out of the processing list again by the same pass of the
  consumer loop, which logs the failure at error level and sends nothing to the
  dispatcher; the entry is left in none of the pending, processing and failed lists
  by that pass. The recovery at startup treats such an entry of the processing list
  alike: it logs at error level, the processing list ends empty, the entry is not
  put into the pending list and the failed list is unchanged. The scans of
  \<^verbatim>\<open>Acknowledge\<close> and \<^verbatim>\<open>Reject\<close> are the exception: they pass over the entries that
  do not decode, which stay in the processing list as they were, and log nothing at
  error level; neither puts such an entry into the pending or the failed list.
\<close>

theorem malformed_entries_are_dropped:
  assumes "faults w = []"
    and "unmarshal item = None"
  shows "(pending w = ps @ [item] \<longrightarrow>
      Listen_body w =
        Continue (w\<lparr>pending := ps,
                    trace := trace w @ [Log Error ''Failed to unmarshal GDPR request'' []]\<rparr>)) \<and>
    (item \<in> set (processing w) \<longrightarrow>
      processing (snd (recoverStalledRequests w)) = [] \<and>
      failed (snd (recoverStalledRequests w)) = failed w \<and>
      (item \<in> set (pending (snd (recoverStalledRequests w))) \<longleftrightarrow> item \<in> set (pending w)) \<and>
      Log Error ''Failed to unmarshal stalled request'' []
        \<in> set (trace (snd (recoverStalledRequests w)))) \<and>
    (item \<in> set (processing w) \<longrightarrow>
      item \<in> set (processing (snd (Acknowledge w request))) \<and>
      item \<in> set (processing (snd (Reject w request)))) \<and>
    undecodable (processing (snd (Acknowledge w request))) = undecodable (processing w) \<and>
    pending (snd (Acknowledge w request)) = pending w \<and>
    failed (snd (Acknowledge w request)) = failed w \<and>
    error_logs (trace (snd (Acknowledge w request))) = error_logs (trace w) \<and>
    undecodable (processing (snd (Reject w request))) = undecodable (processing w) \<and>
    undecodable (pending (snd (Reject w request))) = undecodable (pending w) \<and>
    undecodable (failed (snd (Reject w request))) = undecodable (failed w) \<and>
    error_logs (trace (snd (Reject w request))) = error_logs (trace w)"
proof -
  note ok = recoverStalledRequests_ok [OF assms(1)]
  note ack = Acknowledge_skips_undecodable [OF assms(1), of request]
  note rej = Reject_skips_undecodable [OF assms(1), of request]
  have "item \<notin> set (map marshal (List.map_filter unmarshal (processing w)))"
    using assms(2) by (auto simp: marshal_def)
  then have p: "item \<in> set (pending (snd (recoverStalledRequests w))) \<longleftrightarrow> item \<in> set (pending w)"
    using ok by simp
  have s: "item \<in> set (processing (snd (Acknowledge w request))) \<and>
      item \<in> set (processing (snd (Reject w request)))"
    if "item \<in> set (processing w)"
  proof -
    have "item \<in> set (undecodable (processing w))"
      using that assms(2) by (simp add: in_undecodable)
    then have "item \<in> set (undecodable (processing (snd (Acknowledge w request))))"
      and "item \<in> set (undecodable (processing (snd (Reject w request))))"
      using ack rej by simp_all
    then show ?thesis by (simp add: in_undecodable)
  qed
  show ?thesis
    using ok p s ack rej Listen_body_malformed [OF assms(1) _ assms(2)]
      recoverStalledRequests_logs_malformed [OF assms(1) _ assms(2)]
    by simp
qed

theorem malformed_entries_are_dropped_witness:
  "Listen_body (idle\<lparr>pending := [marshal (queued0 ''A'' 0), Malformed ''{'']\<rparr>) =
     Continue (idle\<lparr>pending := [marshal (queued0 ''A'' 0)],
                 trace := [Log Error ''Failed to unmarshal GDPR request'' []]\<rparr>) \<and>
   processing (snd (recoverStalledRequests (idle\<lparr>processing := [Malformed ''{'']\<rparr>))) = [] \<and>
   failed (snd (recoverStalledRequests (idle\<lparr>processing := [Malformed ''{'']\<rparr>))) = [] \<and>
   Malformed ''{'' \<in> set (processing (snd (Acknowledge (idle\<lparr>processing := [Malformed ''{'']\<rparr>) request0))) \<and>
   Malformed ''{'' \<in> set (processing (snd (Reject (idle\<lparr>processing := [Malformed ''{'']\<rparr>) request0)))"
proof -
  have a: "Listen_body (idle\<lparr>pending := [marshal (queued0 ''A'' 0), Malformed ''{'']\<rparr>) =
     Continue (idle\<lparr>pending := [marshal (queued0 ''A'' 0)],
                 trace := [Log Error ''Failed to unmarshal GDPR request'' []]\<rparr>)"
    using malformed_entries_are_dropped
      [where w = "idle\<lparr>pending := [marshal (queued0 ''A'' 0), Malformed ''{'']\<rparr>"
         and item = "Malformed ''{''" and ps = "[marshal (queued0 ''A'' 0)]"]
    by (simp add: idle_def)
  have b: "processing (snd (recoverStalledRequests (idle\<lparr>processing := [Malformed ''{'']\<rparr>))) = [] \<and>
   failed (snd (recoverStalledRequests (idle\<lparr>processing := [Malformed ''{'']\<rparr>))) = [] \<and>
   Malformed ''{'' \<in> set (processing (snd (Acknowledge (idle\<lparr>processing := [Malformed ''{'']\<rparr>) request0))) \<and>
   Malformed ''{'' \<in> set (processing (snd (Reject (idle\<lparr>processing := [Malformed ''{'']\<rparr>) request0)))"
    using malformed_entries_are_dropped
      [where w = "idle\<lparr>processing := [Malformed ''{'']\<rparr>" and item = "Malformed ''{''"
         and request = request0]
    by (simp add: idle_def)
  show ?thesis using a b by simp
qed

theorem scans_keep_malformed_entries_counterexample:
  "unmarshal (Malformed ''{'') = None \<and>
   Acknowledge (idle\<lparr>processing := [Malformed ''{'']\<rparr>) request0 =
     (None, idle\<lparr>processing := [Malformed ''{''],
                 trace := [Log Warn ''Request not found in processing queue for acknowledgment'' []]\<rparr>) \<and>
   Reject (idle\<lparr>processing := [Malformed ''{'']\<rparr>) request0 =
     (None, idle\<lparr>processing := [Malformed ''{''],
                 trace := [Log Warn ''Request not found in processing queue for rejection'' []]\<rparr>) \<and>
   Listen_body (idle\<lparr>pending := [Malformed ''{''],
                     faults := [None, Some (RedisError ''connection lost'')]\<rparr>) =
     Continue (idle\<lparr>processing := [Malformed ''{''],
                 trace := [Log Error ''Failed to unmarshal GDPR request'' []]\<rparr>)"
  by (simp add: idle_def Acknowledge_def Reject_def Listen_body_def LRange_def LRem_def
      BRPopLPush_def next_fault_def log_def)


section \<open>The consumer loop under store failures\<close>

lemma Listen_body_fails:
  assumes "faults w = Some e # fs" "e \<noteq> RedisNil"
  shows "Listen_body w =
    Continue (w\<lparr>faults := fs,
                trace := trace w @ [Log Error ''Failed to read from GDPR queue'' [], Sleep 5]\<rparr>)"
  using assms by (simp add: Listen_body_def BRPopLPush_def next_fault_def log_def sleep_def)

lemma Listen_body_not_Returned: "Listen_body w \<noteq> Returned err w'"
  by (auto simp: Listen_body_def split: prod.splits reply.splits option.splits)

lemma Listen_loop_not_Returned: "Listen_loop n w \<noteq> Returned err w'"
proof (induction n arbitrary: w)
  case 0
  then show ?case by simp
next
  case (Suc n)
  then show ?case
    using Listen_body_not_Returned [of w]
    by (cases "Listen_body w") simp_all
qed

lemma Listen_not_Returned: "Listen n w \<noteq> Returned err w'"
  by (auto simp: Listen_def Listen_loop_not_Returned split: prod.splits option.splits)

lemma Listen_loop_failures:
  "faults w = map Some es @ fs \<Longrightarrow> RedisNil \<notin> set es \<Longrightarrow>
   Listen_loop (length es + n) w =
     Listen_loop n (w\<lparr>faults := fs,
       trace := trace w @
         concat (map (\<lambda>e. [Log Error ''Failed to read from GDPR queue'' [], Sleep 5]) es)\<rparr>)"
proof (induction es arbitrary: w)
  case Nil
  then have "w\<lparr>faults := fs, trace := trace w @ []\<rparr> = w" by simp
  then show ?case by simp
next
  case (Cons e es)
  let ?w1 = "w\<lparr>faults := map Some es @ fs,
                trace := trace w @ [Log Error ''Failed to read from GDPR queue'' [], Sleep 5]\<rparr>"
  have b: "Listen_body w = Continue ?w1"
    using Cons.prems by (intro Listen_body_fails) auto
  have "Listen_loop (length es + n) ?w1 =
     Listen_loop n (?w1\<lparr>faults := fs,
       trace := trace ?w1 @
         concat (map (\<lambda>e. [Log Error ''Failed to read from GDPR queue'' [], Sleep 5]) es)\<rparr>)"
    using Cons.prems by (intro Cons.IH) auto
  then show ?case using b by simp
qed

lemma still_running:
  "(\<And>err v. f \<noteq> Returned err v) \<Longrightarrow> (\<exists>v. f = Continue v) \<or> (\<exists>v. f = Waiting v)"
  by (cases f) auto

lemma Listen_after_failed_recovery:
  "Listen n (w\<lparr>faults := Some e0 # fl\<rparr>) =
     Listen_loop n (w\<lparr>faults := fl,
                     trace := trace w @ [Log Error ''Failed to recover stalled requests'' []]\<rparr>)"
  by (simp add: Listen_def recoverStalledRequests_def LRange_def next_fault_def log_def)

text \<open>
  C7. When the blocking claim of the consumer loop fails with store errors other than
  the empty-queue sentinel \<^verbatim>\<open>redis.Nil\<close>, however many times in a row, each failing
  pass logs the error at error level, sleeps 5 seconds and goes on to the next pass,
  which claims again: after as many passes as there were errors the loop is still
  running, the store's lists untouched and the trace longer by one error log and one
  5-second sleep for each error, in order; the passes that follow are those of the
  loop started in that state, and when the store answers again and an entry is
  pending, the very next pass claims it. \<^verbatim>\<open>Listen\<close> does the same when its recovery
  at startup has failed too, after logging that. After any number of passes, whatever
  the store does, the loop and \<^verbatim>\<open>Listen\<close> are still running or waiting in the
  blocking claim: they have not returned and have handed no error to the caller.
\<close>

theorem Listen_retries_after_store_errors:
  assumes "faults w = map Some es @ fs"
    and "RedisNil \<notin> set es"
    and "w' = w\<lparr>faults := fs,
                 trace := trace w @
                   concat (map (\<lambda>e. [Log Error ''Failed to read from GDPR queue'' [], Sleep 5]) es)\<rparr>"
  shows "Listen_loop (length es) w = Continue w' \<and>
    pending w' = pending w \<and> processing w' = processing w \<and> failed w' = failed w \<and>
    ch w' = ch w \<and>
    (\<forall>n. Listen_loop (length es + n) w = Listen_loop n w') \<and>
    (\<forall>ps q extra. fs = [] \<and> pending w = ps @ [Encoded q extra] \<longrightarrow>
       Listen_loop (Suc (length es)) w =
         Continue (w'\<lparr>pending := ps, processing := Encoded q extra # processing w,
                     trace := trace w' @ [Log Info ''Dequeued GDPR request''
                                            [(''retry_count'', sint (RetryCount q))]],
                     ch := ch w @ [Request q]\<rparr>)) \<and>
    (\<forall>e0. Listen (length es) (w\<lparr>faults := Some e0 # faults w\<rparr>) =
       Continue (w'\<lparr>trace := trace w @ [Log Error ''Failed to recover stalled requests'' []] @
                   concat (map (\<lambda>e. [Log Error ''Failed to read from GDPR queue'' [], Sleep 5]) es)\<rparr>)) \<and>
    (\<forall>n v. ((\<exists>v'. Listen_body v = Continue v') \<or> (\<exists>v'. Listen_body v = Waiting v')) \<and>
       ((\<exists>v'. Listen_loop n v = Continue v') \<or> (\<exists>v'. Listen_loop n v = Waiting v')) \<and>
       ((\<exists>v'. Listen n v = Continue v') \<or> (\<exists>v'. Listen n v = Waiting v')))"
proof -
  have c: "Listen_loop (length es + n) w = Listen_loop n w'" for n
    unfolding assms(3) using assms(1,2) by (rule Listen_loop_failures)
  have b: "Listen_loop (length es) w = Continue w'"
    using c [of 0] by simp
  have d: "Listen_loop (Suc (length es)) w =
         Continue (w'\<lparr>pending := ps, processing := Encoded q extra # processing w,
                     trace := trace w' @ [Log Info ''Dequeued GDPR request''
                                            [(''retry_count'', sint (RetryCount q))]],
                     ch := ch w @ [Request q]\<rparr>)"
    if "fs = []" "pending w = ps @ [Encoded q extra]" for ps q extra
  proof -
    have "faults w' = []" "pending w' = ps @ [Encoded q extra]"
      using that by (simp_all add: assms(3))
    from Listen_body_claim [OF this]
    have "Listen_body w' =
      Continue (w'\<lparr>pending := ps, processing := Encoded q extra # processing w,
                  trace := trace w' @ [Log Info ''Dequeued GDPR request''
                                         [(''retry_count'', sint (RetryCount q))]],
                  ch := ch w @ [Request q]\<rparr>)"
      by (simp add: assms(3))
    then show ?thesis using c [of "Suc 0"] by simp
  qed
  have l: "Listen (length es) (w\<lparr>faults := Some e0 # faults w\<rparr>) =
       Continue (w'\<lparr>trace := trace w @ [Log Error ''Failed to recover stalled requests'' []] @
                   concat (map (\<lambda>e. [Log Error ''Failed to read from GDPR queue'' [], Sleep 5]) es)\<rparr>)"
    for e0
  proof -
    let ?v = "w\<lparr>faults := faults w,
                 trace := trace w @ [Log Error ''Failed to recover stalled requests'' []]\<rparr>"
    have "Listen_loop (length es + 0) ?v =
        Listen_loop 0 (?v\<lparr>faults := fs,
          trace := trace ?v @
            concat (map (\<lambda>e. [Log Error ''Failed to read from GDPR queue'' [], Sleep 5]) es)\<rparr>)"
      by (rule Listen_loop_failures) (simp_all add: assms(1,2))
    then show ?thesis
      by (simp add: Listen_after_failed_recovery assms(3))
  qed
  have r: "((\<exists>v'. Listen_body v = Continue v') \<or> (\<exists>v'. Listen_body v = Waiting v')) \<and>
       ((\<exists>v'. Listen_loop n v = Continue v') \<or> (\<exists>v'. Listen_loop n v = Waiting v')) \<and>
       ((\<exists>v'. Listen n v = Continue v') \<or> (\<exists>v'. Listen n v = Waiting v'))" for n v
    using still_running [of "Listen_body v", OF Listen_body_not_Returned]
      still_running [of "Listen_loop n v", OF Listen_loop_not_Returned]
      still_running [of "Listen n v", OF Listen_not_Returned]
    by simp
  show ?thesis
    using b c d l r by (simp add: assms(3))
qed

theorem Listen_retries_after_store_errors_witness:
  "Listen_loop 2 (idle\<lparr>pending := [marshal (queued0 ''A'' 0)],
                      faults := [Some (RedisError ''timeout''), Some (RedisError ''refused'')]\<rparr>)
     = Continue (idle\<lparr>pending := [marshal (queued0 ''A'' 0)],
         trace := [Log Error ''Failed to read from GDPR queue'' [], Sleep 5,
                   Log Error ''Failed to read from GDPR queue'' [], Sleep 5]\<rparr>) \<and>
   Listen_loop 3 (idle\<lparr>pending := [marshal (queued0 ''A'' 0)],
                      faults := [Some (RedisError ''timeout''), Some (RedisError ''refused'')]\<rparr>)
     = Continue (idle\<lparr>processing := [marshal (queued0 ''A'' 0)],
         trace := [Log Error ''Failed to read from GDPR queue'' [], Sleep 5,
                   Log Error ''Failed to read from GDPR queue'' [], Sleep 5,
                   Log Info ''Dequeued GDPR request'' [(''retry_count'', 0)]],
         ch := [request0]\<rparr>)"
proof -
  let ?w = "idle\<lparr>pending := [marshal (queued0 ''A'' 0)],
                 faults := [Some (RedisError ''timeout''), Some (RedisError ''refused'')]\<rparr>"
  let ?es = "[RedisError ''timeout'', RedisError ''refused'']"
  let ?w' = "?w\<lparr>faults := [],
                 trace := trace ?w @
                   concat (map (\<lambda>e. [Log Error ''Failed to read from GDPR queue'' [], Sleep 5]) ?es)\<rparr>"
  have h: "faults ?w = map Some ?es @ []" "RedisNil \<notin> set ?es" "?w' = ?w'"
    by (simp_all add: idle_def)
  have p: "pending ?w = [] @ [Encoded (queued0 ''A'' 0) []]"
    by (simp add: idle_def marshal_def)
  from Listen_retries_after_store_errors [OF h]
  have a: "Listen_loop (length ?es) ?w = Continue ?w'"
    and b: "\<forall>ps q extra. [] = ([] :: error option list) \<and> pending ?w = ps @ [Encoded q extra] \<longrightarrow>
       Listen_loop (Suc (length ?es)) ?w =
         Continue (?w'\<lparr>pending := ps, processing := Encoded q extra # processing ?w,
                     trace := trace ?w' @ [Log Info ''Dequeued GDPR request''
                                            [(''retry_count'', sint (RetryCount q))]],
                     ch := ch ?w @ [Request q]\<rparr>)"
    by blast+
  have c: "Listen_loop (Suc (length ?es)) ?w =
         Continue (?w'\<lparr>pending := [], processing := Encoded (queued0 ''A'' 0) [] # processing ?w,
                     trace := trace ?w' @ [Log Info ''Dequeued GDPR request''
                                            [(''retry_count'', sint (RetryCount (queued0 ''A'' 0)))]],
                     ch := ch ?w @ [Request (queued0 ''A'' 0)]\<rparr>)"
    using b p by blast
  have n: "length ?es = 2" "Suc (length ?es) = 3" by simp_all
  show ?thesis
    using a c unfolding n by (simp add: idle_def marshal_def queued0_def)
qed

section \<open>Decoding and encoding again\<close>

text \<open>
  C8 (as amended). Decoding a queue record and encoding it again, as \<^verbatim>\<open>Reject\<close> and
  the recovery at startup do, keeps the fields of \<^verbatim>\<open>QueuedRequest\<close> (the request,
  \<^verbatim>\<open>queued_at\<close>, \<^verbatim>\<open>retry_count\<close>, \<^verbatim>\<open>last_attempt_at\<close>, \<^verbatim>\<open>request_id\<close>): the record
  written decodes to the same values. It carries none of the fields that the struct
  does not declare, and no version. So the recovery, the store answering, puts at
  the head of the pending list a record with the decoded fields of the entry it
  found and nothing more.
\<close>

theorem reencoding_keeps_declared_fields_only:
  assumes "unmarshal r = Some q"
    and "faults w = []"
    and "processing w = [r]"
  shows "unmarshal (marshal q) = Some q \<and> marshal q = Encoded q [] \<and>
    pending (snd (recoverStalledRequests w)) = marshal q # pending w \<and>
    processing (snd (recoverStalledRequests w)) = []"
  using recoverStalledRequests_ok [OF assms(2)] assms(1,3)
  by (simp add: marshal_def)

theorem reencoding_keeps_declared_fields_only_witness:
  "unmarshal (Encoded (queued0 ''A'' 1) [(''schema_version'', ''2'')]) = Some (queued0 ''A'' 1) \<and>
   pending (snd (recoverStalledRequests
     (idle\<lparr>processing := [Encoded (queued0 ''A'' 1) [(''schema_version'', ''2'')]]\<rparr>)))
     = [Encoded (queued0 ''A'' 1) []]"
  using reencoding_keeps_declared_fields_only
    [where r = "Encoded (queued0 ''A'' 1) [(''schema_version'', ''2'')]"
       and q = "queued0 ''A'' 1"
       and w = "idle\<lparr>processing := [Encoded (queued0 ''A'' 1) [(''schema_version'', ''2'')]]\<rparr>"]
  by (simp add: idle_def)

theorem roundtrip_drops_unknown_fields_counterexample:
  "pending (snd (recoverStalledRequests
     (idle\<lparr>processing := [Encoded (queued0 ''A'' 1) [(''schema_version'', ''2'')]]\<rparr>)))
     = [Encoded (queued0 ''A'' 1) []] \<and>
   Encoded (queued0 ''A'' 1) [] \<noteq> Encoded (queued0 ''A'' 1) [(''schema_version'', ''2'')] \<and>
   marshal (the (unmarshal (Encoded (queued0 ''A'' 1) [(''schema_version'', ''2'')])))
     \<noteq> Encoded (queued0 ''A'' 1) [(''schema_version'', ''2'')]"
  by (simp add: idle_def marshal_def recoverStalledRequests_def LRange_def LPush_def LRem_def
      next_fault_def log_def)


section \<open>The bound on running tasks\<close>

lemma step_keeps_balance:
  assumes "step N a s = Some s'"
    and "slots s = running s + (if dispatcher s = AtSpawn then 1 else 0)"
    and "slots s \<le> N"
  shows "slots s' = running s' + (if dispatcher s' = AtSpawn then 1 else 0) \<and> slots s' \<le> N"
  using assms by (cases a) (auto split: if_splits)

lemma exec_keeps_balance:
  "exec N as s = Some s' \<Longrightarrow>
   slots s = running s + (if dispatcher s = AtSpawn then 1 else 0) \<Longrightarrow> slots s \<le> N \<Longrightarrow>
   slots s' = running s' + (if dispatcher s' = AtSpawn then 1 else 0) \<and> slots s' \<le> N"
proof (induction as arbitrary: s)
  case Nil
  then show ?case by simp
next
  case (Cons a as)
  from Cons.prems(1) obtain s1 where a: "step N a s = Some s1" and r: "exec N as s1 = Some s'"
    by (auto split: option.splits)
  from step_keeps_balance [OF a Cons.prems(2,3)] Cons.IH [OF r]
  show ?case by blast
qed

text \<open>
  C9. With the semaphore's capacity \<open>N\<close> (\<^verbatim>\<open>MaxConcurrency\<close>), in every state the
  dispatcher and its tasks can reach, the number of tasks running is at most the
  number of slots taken, which is at most \<open>N\<close>. A task is started only with a slot
  taken for it by the dispatcher, and a running task that finishes, by returning or
  by a panic, gives its slot back; this release never has to wait.
\<close>

theorem running_tasks_bounded_by_MaxConcurrency:
  assumes "exec N as start = Some s"
  shows "running s \<le> N \<and> running s \<le> slots s \<and> slots s \<le> N \<and>
    (dispatcher s = AtSpawn \<longrightarrow> running s < slots s) \<and>
    (\<forall>out. \<not> halted s \<and> 0 < running s \<longrightarrow>
       step N (Finish out) s =
         Some (s\<lparr>slots := slots s - 1, running := running s - 1, halted := (out = Panics)\<rparr>))"
proof -
  have "slots s = running s + (if dispatcher s = AtSpawn then 1 else 0) \<and> slots s \<le> N"
    using exec_keeps_balance [OF assms] by (simp add: start_def)
  then show ?thesis by (auto split: if_splits)
qed

theorem running_tasks_bounded_by_MaxConcurrency_witness:
  "exec 2 [Receive, Acquire, Spawn, Receive, Acquire, Spawn, Receive] start
     = Some \<lparr>slots = 2, running = 2, dispatcher = AtAcquire, halted = False\<rparr> \<and>
   running \<lparr>slots = 2, running = 2, dispatcher = AtAcquire, halted = False\<rparr> \<le> 2 \<and>
   step 2 Acquire \<lparr>slots = 2, running = 2, dispatcher = AtAcquire, halted = False\<rparr> = None \<and>
   step 2 (Finish Panics) \<lparr>slots = 2, running = 2, dispatcher = AtAcquire, halted = False\<rparr>
     = Some \<lparr>slots = 1, running = 1, dispatcher = AtAcquire, halted = True\<rparr>"
proof -
  have e: "exec 2 [Receive, Acquire, Spawn, Receive, Acquire, Spawn, Receive] start
     = Some \<lparr>slots = 2, running = 2, dispatcher = AtAcquire, halted = False\<rparr>"
    by (simp add: start_def)
  from running_tasks_bounded_by_MaxConcurrency [OF e]
  have "running \<lparr>slots = 2, running = 2, dispatcher = AtAcquire, halted = False\<rparr> \<le> 2"
    and "step 2 (Finish Panics) \<lparr>slots = 2, running = 2, dispatcher = AtAcquire, halted = False\<rparr>
     = Some \<lparr>slots = 1, running = 1, dispatcher = AtAcquire, halted = True\<rparr>"
    by simp_all
  then show ?thesis using e by simp
qed

section \<open>Cleaning a user's messages\<close>

lemma clean_loop_eq:
  "clean_loop u ms c =
     (map (\<lambda>m. if AuthorId m = u
                then m\<lparr>AuthorId := 0, Content := notice, Embeds := [], Attachments := []\<rparr>
                else m) ms,
      c + length (filter (\<lambda>m. AuthorId m = u) ms))"
  by (induction ms arbitrary: c) simp_all

text \<open>
  C10. \<^verbatim>\<open>cleanMessagesInTranscript\<close> returns the number of messages of the transcript
  whose author is \<open>u\<close>. Afterwards the transcript has as many messages as before;
  each one whose author was \<open>u\<close> has author 0, the fixed notice as content and no
  embeds and attachments, its other fields as before; each other message is
  unchanged; and the users map maps \<open>u\<close> and 0 to the anonymized user and every other
  key as before.
\<close>

theorem cleanMessagesInTranscript_redacts_exactly_the_users_messages:
  assumes "cleanMessagesInTranscript t u = (n, t')"
  shows "n = length (filter (\<lambda>m. AuthorId m = u) (Messages t)) \<and>
    length (Messages t') = length (Messages t) \<and>
    (\<forall>i < length (Messages t).
       (AuthorId (Messages t ! i) = u \<longrightarrow>
          Messages t' ! i =
            (Messages t ! i)\<lparr>AuthorId := 0, Content := notice, Embeds := [], Attachments := []\<rparr>) \<and>
       (AuthorId (Messages t ! i) \<noteq> u \<longrightarrow> Messages t' ! i = Messages t ! i)) \<and>
    (\<exists>users. Users (Entities t') = Some users \<and>
       users u = Some anonymizedUser \<and> users 0 = Some anonymizedUser \<and>
       (\<forall>k. k \<noteq> u \<and> k \<noteq> 0 \<longrightarrow> users k = make_if_nil (Users (Entities t)) k))"
  using assms
  by (auto simp: cleanMessagesInTranscript_def clean_loop_eq Let_def)

theorem cleanMessagesInTranscript_redacts_exactly_the_users_messages_witness:
  "fst (cleanMessagesInTranscript transcript0 7) = 2 \<and>
   length (Messages (snd (cleanMessagesInTranscript transcript0 7))) = 3 \<and>
   Messages (snd (cleanMessagesInTranscript transcript0 7)) ! 1 =
     \<lparr>AuthorId = 8, Content = ''welcome'', Embeds = [], Attachments = [()]\<rparr> \<and>
   Messages (snd (cleanMessagesInTranscript transcript0 7)) ! 2 =
     \<lparr>AuthorId = 0, Content = notice, Embeds = [], Attachments = []\<rparr>"
proof -
  from cleanMessagesInTranscript_redacts_exactly_the_users_messages
    [of transcript0 7 "fst (cleanMessagesInTranscript transcript0 7)"
        "snd (cleanMessagesInTranscript transcript0 7)"]
  have n: "fst (cleanMessagesInTranscript transcript0 7) =
      length (filter (\<lambda>m. AuthorId m = 7) (Messages transcript0))"
    and l: "length (Messages (snd (cleanMessagesInTranscript transcript0 7))) =
      length (Messages transcript0)"
    and m: "\<forall>i < length (Messages transcript0).
       (AuthorId (Messages transcript0 ! i) = 7 \<longrightarrow>
          Messages (snd (cleanMessagesInTranscript transcript0 7)) ! i =
            (Messages transcript0 ! i)\<lparr>AuthorId := 0, Content := notice, Embeds := [],
               Attachments := []\<rparr>) \<and>
       (AuthorId (Messages transcript0 ! i) \<noteq> 7 \<longrightarrow>
          Messages (snd (cleanMessagesInTranscript transcript0 7)) ! i = Messages transcript0 ! i)"
    by simp_all
  have "Messages (snd (cleanMessagesInTranscript transcript0 7)) ! 1 = Messages transcript0 ! 1"
    using m [rule_format, of 1] by (simp add: transcript0_def)
  moreover have "Messages (snd (cleanMessagesInTranscript transcript0 7)) ! 2 =
      (Messages transcript0 ! 2)\<lparr>AuthorId := 0, Content := notice, Embeds := [],
         Attachments := []\<rparr>"
    using m [rule_format, of 2] by (simp add: transcript0_def)
  ultimately show ?thesis
    using n l by (simp add: transcript0_def)
qed


section \<open>No loss while the store answers\<close>

lemma ids_map_marshal: "ids (map marshal (List.map_filter unmarshal xs)) = ids xs"
  by (simp add: ids_def map_filter_unmarshal_marshal)

lemma Enqueue_ok:
  "faults w = [] \<Longrightarrow>
   snd (Enqueue w request rid now) =
     w\<lparr>pending := marshal \<lparr>Request = request, QueuedAt = now, RetryCount = 0,
                            LastAttemptAt = 0, RequestID = rid\<rparr> # pending w\<rparr>"
  by (simp add: Enqueue_def LPush_ok snd_errOf)

lemma Listen_body_waits:
  "faults w = [] \<Longrightarrow> pending w = [] \<Longrightarrow> Listen_body w = Waiting w"
  by (simp add: Listen_body_def BRPopLPush_def next_fault_ok)

lemma claim_keeps_everywhere:
  assumes "faults w = []"
  shows "faults (world_of (Listen_body w)) = [] \<and>
         everywhere (world_of (Listen_body w)) = everywhere w"
proof (cases "pending w" rule: rev_cases)
  case Nil
  then show ?thesis using assms by (simp add: Listen_body_waits)
next
  case (snoc ps x)
  show ?thesis
  proof (cases x)
    case (Malformed s)
    then show ?thesis
      using Listen_body_malformed [OF assms snoc] assms snoc
      by (simp add: everywhere_def ids_append ids_Cons ids_Nil)
  next
    case (Encoded q extra)
    then show ?thesis
      using Listen_body_claim [OF assms, of ps q extra] assms snoc
      by (auto simp: everywhere_def ids_append ids_Cons ids_Nil)
  qed
qed

lemma Reject_keeps_everywhere:
  assumes "faults w = []"
  shows "faults (snd (Reject w request)) = [] \<and>
         everywhere (snd (Reject w request)) = everywhere w"
proof (cases "\<exists>x\<in>set (processing w). hit request x")
  case True
  then obtain xs item ys where s: "processing w = xs @ item # ys" "hit request item"
      "\<forall>x\<in>set xs. \<not> hit request x"
    using split_list_first_prop [of "processing w" "hit request"] by blast
  from s(2) obtain queued where q: "unmarshal item = Some queued"
      "requestsMatch (Request queued) request"
    by (auto simp: hit_def split: option.splits)
  show ?thesis
    unfolding Reject_first_hit [OF assms s(1,3) q]
    using assms s(1) q(1)
    by (auto simp: everywhere_def ids_append ids_Cons marshal_def)
next
  case False
  then show ?thesis
    using assms by (simp add: Reject_def LRange_ok Reject_loop_miss log_def everywhere_def)
qed

lemma Acknowledge_keeps_faults:
  assumes "faults w = []"
  shows "faults (snd (Acknowledge w request)) = []"
proof (cases "\<exists>x\<in>set (processing w). hit request x")
  case True
  then obtain xs item ys where s: "processing w = xs @ item # ys" "hit request item"
      "\<forall>x\<in>set xs. \<not> hit request x"
    using split_list_first_prop [of "processing w" "hit request"] by blast
  show ?thesis
    unfolding Acknowledge_first_hit [OF assms s(1,3,2)] using assms by simp
next
  case False
  then show ?thesis
    using assms by (simp add: Acknowledge_def LRange_ok Acknowledge_loop_miss log_def)
qed

lemma recover_keeps_everywhere:
  assumes "faults w = []"
  shows "faults (snd (recoverStalledRequests w)) = [] \<and>
         everywhere (snd (recoverStalledRequests w)) = everywhere w"
  using recoverStalledRequests_ok [OF assms]
  by (auto simp: everywhere_def ids_append ids_map_marshal ids_Nil)

lemma perform_keeps_everywhere:
  assumes "faults w = []" "\<not> store_fault a"
  shows "faults (perform a w) = [] \<and>
         everywhere w \<union> enqueues a \<subseteq> everywhere (perform a w) \<union> acknowledged [a] w"
proof (cases a)
  case (DoEnqueue request rid now)
  then show ?thesis using assms(1) by (auto simp: Enqueue_ok everywhere_def ids_marshal)
next
  case DoClaim
  then show ?thesis using claim_keeps_everywhere [OF assms(1)] by simp
next
  case (DoAcknowledge request)
  then show ?thesis using Acknowledge_keeps_faults [OF assms(1)] by auto
next
  case (DoReject request)
  then show ?thesis using Reject_keeps_everywhere [OF assms(1)] by simp
next
  case DoRecover
  then show ?thesis using recover_keeps_everywhere [OF assms(1)] by simp
next
  case (StoreFaults fs)
  then show ?thesis using assms(2) by simp
qed

lemma acknowledged_Cons: "acknowledged (a # as) w = acknowledged [a] w \<union> acknowledged as (perform a w)"
  by (cases a) simp_all

lemma acknowledged_single: "acknowledged [a] w \<subseteq> everywhere w"
  by (cases a) auto

text \<open>
  While the store answers every command, every identifier that was in one of the three
  lists or has been enqueued is, after any run of the operations, in one of the lists
  or among those that an acknowledgement took out.
\<close>

lemma no_loss_while_store_answers:
  "faults w = [] \<Longrightarrow> \<forall>a\<in>set as. \<not> store_fault a \<Longrightarrow>
   everywhere w \<union> (\<Union>a\<in>set as. enqueues a) \<subseteq> everywhere (run as w) \<union> acknowledged as w"
proof (induction as arbitrary: w)
  case Nil
  then show ?case by simp
next
  case (Cons a as)
  have p: "faults (perform a w) = []"
      "everywhere w \<union> enqueues a \<subseteq> everywhere (perform a w) \<union> acknowledged [a] w"
    using perform_keeps_everywhere [of w a] Cons.prems by auto
  have "everywhere (perform a w) \<union> (\<Union>a\<in>set as. enqueues a)
      \<subseteq> everywhere (run as (perform a w)) \<union> acknowledged as (perform a w)"
    using Cons.IH [OF p(1)] Cons.prems(2) by simp
  then show ?case
    using p(2) acknowledged_Cons [of a as w] by auto
qed

section \<open>A store failure inside Reject\<close>

text \<open>
  C2, at a failing input. An item is enqueued and claimed; the store then answers
  two commands and fails the third. \<^verbatim>\<open>Reject\<close> reads the processing list, removes the
  entry from it, and its \<^verbatim>\<open>LPush\<close> to the pending list fails: \<^verbatim>\<open>Reject\<close> returns
  the error, and the item, handed to the dispatcher once and never acknowledged, is
  in none of the pending, processing and failed lists.
\<close>

theorem Reject_loses_item_when_push_fails:
  "pending (run [DoEnqueue request0 ''A'' 0, DoClaim] idle) = [] \<and>
   processing (run [DoEnqueue request0 ''A'' 0, DoClaim] idle) = [marshal (queued0 ''A'' 0)] \<and>
   Reject (run [DoEnqueue request0 ''A'' 0, DoClaim,
                StoreFaults [None, None, Some (RedisError ''connection lost'')]] idle) request0
     = (Some (RedisError ''connection lost''),
        idle\<lparr>pending := [], processing := [], failed := [],
             trace := [Log Info ''Dequeued GDPR request'' [(''retry_count'', 0)],
                       Log Info ''Requeuing failed GDPR request'' [(''retry_count'', 1)]],
             ch := [request0]\<rparr>)"
  by (simp add: idle_def marshal_def queued0_def request0_def Enqueue_def Listen_body_def
      Reject_def LRange_def LRem_def LPush_def BRPopLPush_def next_fault_def errOf_def log_def
      send_def requestsMatch_def maxRetries_def word_sle_eq)

text \<open>
  The recovery at startup meets the same failure without a loss: it pushes to the
  pending list first and removes from the processing list only after the push has
  succeeded, so the entry stays in the processing list.
\<close>

lemma recovery_keeps_item_when_push_fails:
  "recoverStalledRequests (run [DoEnqueue request0 ''A'' 0, DoClaim,
       StoreFaults [None, Some (RedisError ''connection lost'')]] idle)
     = (None,
        idle\<lparr>processing := [marshal (queued0 ''A'' 0)],
             trace := [Log Info ''Dequeued GDPR request'' [(''retry_count'', 0)],
                       Log Info ''Recovering stalled requests'' [(''count'', 1)],
                       Log Info ''Recovering stalled request'' [(''retry_count'', 0)],
                       Log Error ''Failed to requeue stalled request'' [],
                       Log Info ''Stalled request recovery complete'' [(''recovered'', 0)]],
             ch := [request0]\<rparr>)"
  by (simp add: idle_def marshal_def queued0_def request0_def Enqueue_def Listen_body_def
      recoverStalledRequests_def LRange_def LRem_def LPush_def BRPopLPush_def next_fault_def
      errOf_def log_def send_def)


section \<open>Following one item through a run\<close>




























end
